theory Spec2Isabelle
  imports Main
begin

section \<open>The memory model of slist\_template.h\<close>

text \<open>
  The header declares, for an element type \<open>T\<close>, the node type
  \<^verbatim>\<open>struct sSLIST_T_Node { T data; struct sSLIST_T_Node* next; }\<close>,
  the list handle \<^verbatim>\<open>SLIST_NODE(T)* head = NULL\<close>, the function
  \<^verbatim>\<open>void SLIST_add_T(SLIST_NODE(T)** head, SLIST_NODE(T)* node)\<close> and the
  loop header \<^verbatim>\<open>SLIST_FOR_EACH_NODE_PTR\<close>.

  A node is identified by its storage address. A pointer to a node is an optional
  address, \<open>None\<close> being \<^verbatim>\<open>NULL\<close>. The element type is the type variable \<open>'a\<close>.
\<close>

type_synonym addr = nat

type_synonym ptr = "addr option"

record 'a SLIST_NODE =
  data :: 'a
  "next" :: ptr

text \<open>
  The memory a list lives in: the caller's handle variable \<open>head\<close> and the
  caller-owned node storage, one node at every address. Nodes that were never
  inserted hold arbitrary \<open>next\<close> fields, as uninitialised C variables do.
\<close>

record 'a memory =
  head :: ptr
  nodes :: "addr \<Rightarrow> 'a SLIST_NODE"

text \<open>\<^verbatim>\<open>SLIST_CREATE_LIST(T, head_)\<close>: \<^verbatim>\<open>SLIST_NODE(T)* (head_) = NULL\<close>.\<close>

definition SLIST_CREATE_LIST :: ptr where
  "SLIST_CREATE_LIST = None"

text \<open>The two kinds of store the code performs: \<^verbatim>\<open>*head = p\<close> and \<^verbatim>\<open>a->next = p\<close>.\<close>

definition set_head :: "ptr \<Rightarrow> 'a memory \<Rightarrow> 'a memory" where
  "set_head p s = s\<lparr>head := p\<rparr>"

definition set_next :: "addr \<Rightarrow> ptr \<Rightarrow> 'a memory \<Rightarrow> 'a memory" where
  "set_next a p s = s\<lparr>nodes := (nodes s)(a := (nodes s a)\<lparr>next := p\<rparr>)\<rparr>"

section \<open>Insertion\<close>

text \<open>
  The loop of \<^verbatim>\<open>SLIST_add\<close>:
  \<^verbatim>\<open>
    while (curr->next != NULL) {
        if (curr == node) { return; }
        curr = curr->next;
    }
  \<close>
  It leaves either through the early return (\<open>Found\<close>) or with \<open>curr\<close> at the node
  whose \<open>next\<close> is \<^verbatim>\<open>NULL\<close> (\<open>Last curr\<close>). On a cyclic chain that does not
  contain \<open>node\<close> the loop never leaves; then the value is \<open>None\<close>. The cursor
  \<open>curr\<close> is never \<^verbatim>\<open>NULL\<close>: it starts at a non-null \<^verbatim>\<open>*head\<close> and only moves
  on to a \<open>next\<close> field that was tested non-null.
\<close>

datatype walk_result = Found | Last addr

partial_function (option) walk ::
  "(addr \<Rightarrow> 'a SLIST_NODE) \<Rightarrow> ptr \<Rightarrow> addr \<Rightarrow> walk_result option" where
  "walk h node cur =
     (case next (h cur) of
        None \<Rightarrow> Some (Last cur)
      | Some nx \<Rightarrow> if Some cur = node then Some Found else walk h node nx)"

text \<open>
  A call either returns, with the memory it leaves behind, or dereferences a null
  \<open>node\<close> argument (\<^verbatim>\<open>node->next = NULL\<close> with \<^verbatim>\<open>node == NULL\<close>, which
  \<^verbatim>\<open>SLIST_ADD_NODE_PTR\<close> can pass).
\<close>

datatype 'a outcome = Returned "'a memory" | Null_deref

text \<open>
  \<^verbatim>\<open>
    if (*head == NULL) { *head = node; node->next = NULL; }
    else {
        SLIST_NODE(T)* curr = *head;
        while (curr->next != NULL) { if (curr == node) { return; } curr = curr->next; }
        curr->next = node;
    }
    node->next = NULL;
  \<close>
  The result \<open>None\<close> means that the call does not return. The statement
  \<^verbatim>\<open>node->next = NULL\<close> after the conditional runs on both branches, so the
  empty-list branch stores the field twice.
\<close>

definition SLIST_add :: "'a memory \<Rightarrow> ptr \<Rightarrow> 'a outcome option" where
  "SLIST_add s node =
     (case head s of
        None \<Rightarrow>
          (case node of
             None \<Rightarrow> Some Null_deref
           | Some n \<Rightarrow> Some (Returned (set_next n None (set_next n None (set_head node s)))))
      | Some start \<Rightarrow>
          (case walk (nodes s) node start of
             None \<Rightarrow> None
           | Some Found \<Rightarrow> Some (Returned s)
           | Some (Last cur) \<Rightarrow>
               (case node of
                  None \<Rightarrow> Some Null_deref
                | Some n \<Rightarrow> Some (Returned (set_next n None (set_next cur node s))))))"

text \<open>
  The two call macros. \<^verbatim>\<open>SLIST_ADD_NODE(T, head_, node_)\<close> is
  \<^verbatim>\<open>SLIST_add_T(&(head_), &(node_))\<close>: the address of a node variable, never
  \<^verbatim>\<open>NULL\<close>. \<^verbatim>\<open>SLIST_ADD_NODE_PTR(T, head_, node_)\<close> is
  \<^verbatim>\<open>SLIST_add_T(&(head_), (node_))\<close> and passes the pointer as it is.
\<close>

abbreviation SLIST_ADD_NODE :: "'a memory \<Rightarrow> addr \<Rightarrow> 'a outcome option" where
  "SLIST_ADD_NODE s n \<equiv> SLIST_add s (Some n)"

abbreviation SLIST_ADD_NODE_PTR :: "'a memory \<Rightarrow> ptr \<Rightarrow> 'a outcome option" where
  "SLIST_ADD_NODE_PTR s p \<equiv> SLIST_add s p"

text \<open>
  The stores a call performs, in the order of the source text. The function reads
  memory only before its first store (the test of \<^verbatim>\<open>*head\<close> and the loop), so
  the stores of a call are determined by the memory it is given. The early return
  leaves before any store. With a null \<open>node\<close> the stores listed are those
  performed before \<^verbatim>\<open>node->next = NULL\<close> dereferences it.
\<close>

datatype store = Store_head ptr | Store_next addr ptr

fun perform :: "'a memory \<Rightarrow> store \<Rightarrow> 'a memory" where
  "perform s (Store_head p) = set_head p s"
| "perform s (Store_next a p) = set_next a p s"

datatype stores_outcome = Stored "store list" | Null_deref_after "store list"

definition SLIST_add_stores :: "'a memory \<Rightarrow> ptr \<Rightarrow> stores_outcome option" where
  "SLIST_add_stores s node =
     (case head s of
        None \<Rightarrow>
          (case node of
             None \<Rightarrow> Some (Null_deref_after [Store_head node])
           | Some n \<Rightarrow> Some (Stored [Store_head node, Store_next n None, Store_next n None]))
      | Some start \<Rightarrow>
          (case walk (nodes s) node start of
             None \<Rightarrow> None
           | Some Found \<Rightarrow> Some (Stored [])
           | Some (Last cur) \<Rightarrow>
               (case node of
                  None \<Rightarrow> Some (Null_deref_after [Store_next cur node])
                | Some n \<Rightarrow> Some (Stored [Store_next cur node, Store_next n None]))))"

text \<open>The outcome of a call whose stores are known: the stores performed one by one.\<close>

fun after_stores :: "'a memory \<Rightarrow> stores_outcome \<Rightarrow> 'a outcome" where
  "after_stores s (Stored ws) = Returned (foldl perform s ws)"
| "after_stores s (Null_deref_after ws) = Null_deref"

section \<open>Traversal\<close>

text \<open>
  \<^verbatim>\<open>for (SLIST_NODE(T)* node_ = head_; node_ != NULL; node_ = node_->next) body\<close>.
  The body receives the address of the current node and may change the caller's own
  variables (the first component of the state) and the node storage (the second).
  The loop reads \<open>next\<close> from the storage after the body has run. On a cyclic chain
  the loop does not end and the value is \<open>None\<close>.
\<close>

partial_function (option) SLIST_FOR_EACH_NODE_PTR ::
  "(addr \<Rightarrow> 'u \<times> (addr \<Rightarrow> 'a SLIST_NODE) \<Rightarrow> 'u \<times> (addr \<Rightarrow> 'a SLIST_NODE)) \<Rightarrow>
   ptr \<Rightarrow> 'u \<times> (addr \<Rightarrow> 'a SLIST_NODE) \<Rightarrow> ('u \<times> (addr \<Rightarrow> 'a SLIST_NODE)) option" where
  "SLIST_FOR_EACH_NODE_PTR body node st =
     (case node of
        None \<Rightarrow> Some st
      | Some a \<Rightarrow>
          (let st' = body a st
           in SLIST_FOR_EACH_NODE_PTR body (next (snd st' a)) st'))"

text \<open>
  The sequence of nodes a traversal yields: the loop run with a body that appends
  the address it is given to a list and touches nothing else.
\<close>

fun yield ::
  "addr \<Rightarrow> addr list \<times> (addr \<Rightarrow> 'a SLIST_NODE) \<Rightarrow> addr list \<times> (addr \<Rightarrow> 'a SLIST_NODE)" where
  "yield a (seen, h) = (seen @ [a], h)"

definition traversal :: "'a memory \<Rightarrow> addr list option" where
  "traversal s = map_option fst (SLIST_FOR_EACH_NODE_PTR yield (head s) ([], nodes s))"

text \<open>The number of times the loop body runs: the loop run with a counting body.\<close>

fun tick ::
  "addr \<Rightarrow> nat \<times> (addr \<Rightarrow> 'a SLIST_NODE) \<Rightarrow> nat \<times> (addr \<Rightarrow> 'a SLIST_NODE)" where
  "tick a (k, h) = (Suc k, h)"

definition iterations :: "'a memory \<Rightarrow> nat option" where
  "iterations s = map_option fst (SLIST_FOR_EACH_NODE_PTR tick (head s) (0, nodes s))"

section \<open>Sequences of insertions and reachable lists\<close>

text \<open>
  A caller inserting the nodes \<open>ns\<close> one after the other with
  \<^verbatim>\<open>SLIST_ADD_NODE\<close>, as \<^verbatim>\<open>main\<close> of the demonstration program and the
  unit tests do. The first call that does not return ends the run.
\<close>

fun SLIST_add_seq :: "'a memory \<Rightarrow> addr list \<Rightarrow> 'a outcome option" where
  "SLIST_add_seq s [] = Some (Returned s)"
| "SLIST_add_seq s (n # ns) =
     (case SLIST_ADD_NODE s n of
        Some (Returned s') \<Rightarrow> SLIST_add_seq s' ns
      | r \<Rightarrow> r)"

text \<open>
  The memories that insertions can produce from a freshly created list, together
  with the set of nodes that have been inserted so far (the members: the header
  has no removal).
\<close>

inductive reachable :: "addr set \<Rightarrow> 'a memory \<Rightarrow> bool" where
  fresh: "reachable {} \<lparr>head = SLIST_CREATE_LIST, nodes = h\<rparr>"
| added: "reachable M s \<Longrightarrow> SLIST_ADD_NODE s n = Some (Returned s') \<Longrightarrow>
          reachable (insert n M) s'"

section \<open>Vocabulary for the proofs\<close>

text \<open>
  \<open>chain h p xs\<close>: following \<open>next\<close> in the storage \<open>h\<close> from the pointer \<open>p\<close>
  visits exactly the addresses \<open>xs\<close>, in this order, and then reaches \<^verbatim>\<open>NULL\<close>.
\<close>

primrec chain :: "(addr \<Rightarrow> 'a SLIST_NODE) \<Rightarrow> ptr \<Rightarrow> addr list \<Rightarrow> bool" where
  "chain h p [] = (p = None)"
| "chain h p (a # as) = (p = Some a \<and> chain h (next (h a)) as)"

text \<open>Whether a call changed the \<open>next\<close> field of the node at an address.\<close>

definition next_changed :: "'a memory \<Rightarrow> 'a memory \<Rightarrow> addr \<Rightarrow> bool" where
  "next_changed s s' a = (next (nodes s' a) \<noteq> next (nodes s a))"

section \<open>Concrete memories\<close>

text \<open>
  The list of the demonstration program after its five insertions: the nodes
  \<^verbatim>\<open>a1\<close>, ..., \<^verbatim>\<open>a5\<close> at the addresses 1 to 5 with the payloads 1 to 5.
\<close>

definition demo_nodes :: "addr \<Rightarrow> nat SLIST_NODE" where
  "demo_nodes a = \<lparr>data = a, next = (if a < 5 then Some (Suc a) else None)\<rparr>"

definition demo_list :: "nat memory" where
  "demo_list = \<lparr>head = Some 1, nodes = demo_nodes\<rparr>"

text \<open>
  Storage before any insertion, in the worst case for a list: every node carries
  the same payload and a stale \<open>next\<close> field that points to the node itself.
\<close>

definition stale_nodes :: "addr \<Rightarrow> nat SLIST_NODE" where
  "stale_nodes a = \<lparr>data = 7, next = Some a\<rparr>"

definition stale_fresh :: "nat memory" where
  "stale_fresh = \<lparr>head = SLIST_CREATE_LIST, nodes = stale_nodes\<rparr>"

text \<open>The memory after inserting the nodes 1 and 2 into the fresh list over that storage.\<close>

definition stale_two :: "nat memory" where
  "stale_two = \<lparr>head = Some 1,
      nodes = stale_nodes(1 := \<lparr>data = 7, next = Some 2\<rparr>, 2 := \<lparr>data = 7, next = None\<rparr>)\<rparr>"

section \<open>Stores\<close>

lemma head_set_next [simp]: "head (set_next a p s) = head s"
  by (simp add: set_next_def)

lemma nodes_set_next [simp]:
  "nodes (set_next a p s) = (nodes s)(a := (nodes s a)\<lparr>next := p\<rparr>)"
  by (simp add: set_next_def)

lemma head_set_head [simp]: "head (set_head p s) = p"
  by (simp add: set_head_def)

lemma nodes_set_head [simp]: "nodes (set_head p s) = nodes s"
  by (simp add: set_head_def)

lemma set_next_same: "set_next a (next (nodes s a)) s = s"
  by (simp add: set_next_def)

lemma set_next_twice: "set_next a p (set_next a q s) = set_next a p s"
  by (simp add: set_next_def)

section \<open>Chains\<close>

lemma chain_unique: "chain h p xs \<Longrightarrow> chain h p ys \<Longrightarrow> xs = ys"
proof (induction xs arbitrary: p ys)
  case Nil
  then show ?case by (cases ys) simp_all
next
  case (Cons a as)
  then show ?case by (cases ys) auto
qed

lemma chain_suffix: "chain h p (xs @ a # ys) \<Longrightarrow> chain h (next (h a)) ys"
  by (induction xs arbitrary: p) simp_all

text \<open>A chain that ends cannot come back to a node it has left.\<close>

lemma chain_head_not_later:
  assumes "chain h (next (h a)) as"
  shows "a \<notin> set as"
proof
  assume "a \<in> set as"
  then obtain bs cs where split: "as = bs @ a # cs" by (auto simp: in_set_conv_decomp)
  with assms have "chain h (next (h a)) cs" using chain_suffix by metis
  from chain_unique [OF this assms] have "cs = as" .
  with split show False by simp
qed

lemma chain_distinct: "chain h p xs \<Longrightarrow> distinct xs"
  by (induction xs arbitrary: p) (auto dest: chain_head_not_later)

lemma chain_last_next: "chain h p xs \<Longrightarrow> xs \<noteq> [] \<Longrightarrow> next (h (last xs)) = None"
  by (induction xs arbitrary: p) (auto split: if_splits)

lemma chain_store_elsewhere:
  "a \<notin> set xs \<Longrightarrow> chain (h(a := v)) p xs = chain h p xs"
  by (induction xs arbitrary: p) auto

lemma chain_link:
  assumes "chain h p xs" and "xs \<noteq> []" and "n \<notin> set xs" and "next v = None"
  shows "chain (h(last xs := (h (last xs))\<lparr>next := Some n\<rparr>, n := v)) p (xs @ [n])"
  using assms
proof (induction xs arbitrary: p)
  case Nil
  then show ?case by simp
next
  case (Cons a as)
  from Cons.prems have p: "p = Some a" and rest: "chain h (next (h a)) as" and an: "a \<noteq> n"
    by auto
  show ?case
  proof (cases "as = []")
    case True
    with p an Cons.prems(4) show ?thesis by simp
  next
    case False
    from rest have "a \<notin> set as" by (rule chain_head_not_later)
    with False have "a \<noteq> last as" by (metis last_in_set)
    with Cons.IH [OF rest False] Cons.prems p an False show ?thesis by simp
  qed
qed

section \<open>The traversal follows the chain\<close>

lemma for_each_yield_chain:
  "chain h p xs \<Longrightarrow> SLIST_FOR_EACH_NODE_PTR yield p (u, h) = Some (u @ xs, h)"
proof (induction xs arbitrary: p u)
  case Nil
  then show ?case by (simp add: SLIST_FOR_EACH_NODE_PTR.simps)
next
  case (Cons a as)
  from Cons.prems have p: "p = Some a" and rest: "chain h (next (h a)) as" by simp_all
  from Cons.IH [OF rest, of "u @ [a]"] p show ?case
    by (subst SLIST_FOR_EACH_NODE_PTR.simps) simp
qed

lemma for_each_tick_chain:
  "chain h p xs \<Longrightarrow> SLIST_FOR_EACH_NODE_PTR tick p (k, h) = Some (k + length xs, h)"
proof (induction xs arbitrary: p k)
  case Nil
  then show ?case by (simp add: SLIST_FOR_EACH_NODE_PTR.simps)
next
  case (Cons a as)
  from Cons.prems have p: "p = Some a" and rest: "chain h (next (h a)) as" by simp_all
  from Cons.IH [OF rest, of "Suc k"] p show ?case
    by (subst SLIST_FOR_EACH_NODE_PTR.simps) simp
qed

text \<open>
  Conversely, a traversal that ends has followed a chain. The induction is over the
  iterations of the loop, for every body at once; only the recording body matters.
\<close>

lemma for_each_yield_sound:
  "SLIST_FOR_EACH_NODE_PTR body p st = Some r \<Longrightarrow>
   body = yield \<longrightarrow> (\<exists>xs. chain (snd st) p xs \<and> r = (fst st @ xs, snd st))"
proof (induction rule: SLIST_FOR_EACH_NODE_PTR.raw_induct [rotated 1, consumes 1, case_names step])
  case (step f body p st r)
  show ?case
  proof (cases p)
    case None
    with step(2) show ?thesis by (auto intro: exI [of _ "[]"])
  next
    case (Some a)
    show ?thesis
    proof
      assume b: "body = yield"
      from step(2) Some b have "f yield (next (snd st a)) (fst st @ [a], snd st) = Some r"
        by (cases st) (simp add: Let_def)
      from step(1) [OF this]
      obtain xs where "chain (snd st) (next (snd st a)) xs" "r = ((fst st @ [a]) @ xs, snd st)"
        by auto
      with Some have "chain (snd st) p (a # xs) \<and> r = (fst st @ a # xs, snd st)" by simp
      then show "\<exists>xs. chain (snd st) p xs \<and> r = (fst st @ xs, snd st)" by blast
    qed
  qed
qed

lemma traversal_iff_chain: "traversal s = Some xs \<longleftrightarrow> chain (nodes s) (head s) xs"
proof
  assume "traversal s = Some xs"
  then obtain r where r: "SLIST_FOR_EACH_NODE_PTR yield (head s) ([], nodes s) = Some r"
    and x: "fst r = xs"
    by (auto simp: traversal_def)
  from for_each_yield_sound [OF r] x show "chain (nodes s) (head s) xs" by auto
next
  assume "chain (nodes s) (head s) xs"
  from for_each_yield_chain [OF this, of "[]"] show "traversal s = Some xs"
    by (simp add: traversal_def)
qed

lemma iterations_chain: "chain (nodes s) (head s) xs \<Longrightarrow> iterations s = Some (length xs)"
  using for_each_tick_chain [of "nodes s" "head s" xs 0] by (simp add: iterations_def)

section \<open>The walk over a chain\<close>

text \<open>
  On a chain the loop of \<^verbatim>\<open>SLIST_add\<close> compares \<open>node\<close> with every node but the
  last one, and stops at the last one otherwise.
\<close>

lemma walk_chain:
  "chain h (Some c) xs \<Longrightarrow>
   walk h node c = Some (if node \<in> Some ` set (butlast xs) then Found else Last (last xs))"
proof (induction xs arbitrary: c)
  case Nil
  then show ?case by simp
next
  case (Cons a as)
  from Cons.prems have c: "c = a" and rest: "chain h (next (h a)) as" by simp_all
  show ?case
  proof (cases as)
    case Nil
    with rest c show ?thesis by (subst walk.simps) simp
  next
    case (Cons b bs)
    with rest have nx: "next (h a) = Some b" by simp
    from Cons.IH [of b] rest nx
    have ih: "walk h node b = Some (if node \<in> Some ` set (butlast as) then Found else Last (last as))"
      by simp
    from Cons c nx ih show ?thesis
      by (subst walk.simps) auto
  qed
qed

text \<open>A null \<open>node\<close> is equal to no cursor, so the loop never returns early for it.\<close>

lemma walk_null_not_found: "walk h node c = Some r \<Longrightarrow> node = None \<longrightarrow> r \<noteq> Found"
proof (induction rule: walk.raw_induct [rotated 1, consumes 1, case_names step])
  case (step f h node c r)
  then show ?case by (auto split: option.splits if_splits)
qed

section \<open>Insertion into a chain\<close>

text \<open>With a null \<open>node\<close> the function never returns normally.\<close>

lemma null_node_never_returns: "SLIST_ADD_NODE_PTR s None \<noteq> Some (Returned s')"
  by (auto simp: SLIST_add_def split: option.splits walk_result.splits dest: walk_null_not_found)

text \<open>
  The memory \<^verbatim>\<open>SLIST_add\<close> returns is the given memory after the stores of the
  call, and the call returns, faults or runs forever as its stores say.
\<close>

lemma add_is_its_stores: "SLIST_add s node = map_option (after_stores s) (SLIST_add_stores s node)"
  by (simp add: SLIST_add_def SLIST_add_stores_def split: option.splits walk_result.splits)

lemma found_no_stores:
  "head s = Some c \<Longrightarrow> walk (nodes s) node c = Some Found \<Longrightarrow>
   SLIST_add_stores s node = Some (Stored [])"
  by (simp add: SLIST_add_stores_def)

text \<open>The loop takes its early return for the members that stand before the last one.\<close>

lemma walk_finds_inner:
  assumes "chain (nodes s) (head s) xs" and "n \<in> set (butlast xs)"
  shows "head s = Some (hd xs) \<and> walk (nodes s) (Some n) (hd xs) = Some Found"
proof -
  from assms(2) have "xs \<noteq> []" by auto
  with assms(1) have h: "head s = Some (hd xs)" by (cases xs) auto
  with assms(1) have "chain (nodes s) (Some (hd xs)) xs" by simp
  from walk_chain [OF this, of "Some n"] assms(2) h show ?thesis by simp
qed

lemma add_data_unchanged:
  assumes "SLIST_add s node = Some (Returned s')"
  shows "data (nodes s' a) = data (nodes s a)"
  using assms
  by (auto simp: SLIST_add_def split: option.splits walk_result.splits)

lemma add_empty:
  "head s = None \<Longrightarrow>
   SLIST_add s (Some n) = Some (Returned (set_next n None (set_next n None (set_head (Some n) s))))"
  by (simp add: SLIST_add_def)

lemma add_found:
  assumes "chain (nodes s) (head s) xs" and "n \<in> set (butlast xs)"
  shows "SLIST_add s (Some n) = Some (Returned s)"
proof -
  from assms(2) have "xs \<noteq> []" by auto
  with assms(1) obtain c where c: "head s = Some c" by (cases xs) auto
  with assms(1) have "chain (nodes s) (Some c) xs" by simp
  from walk_chain [OF this, of "Some n"] assms(2) have "walk (nodes s) (Some n) c = Some Found"
    by simp
  with c show ?thesis by (simp add: SLIST_add_def)
qed

lemma add_at_last:
  assumes "chain (nodes s) (head s) xs" and "xs \<noteq> []" and "n \<notin> set (butlast xs)"
  shows "SLIST_add s (Some n) = Some (Returned (set_next n None (set_next (last xs) (Some n) s)))"
proof -
  from assms(1,2) obtain c where c: "head s = Some c" by (cases xs) auto
  with assms(1) have "chain (nodes s) (Some c) xs" by simp
  from walk_chain [OF this, of "Some n"] assms(3)
  have "walk (nodes s) (Some n) c = Some (Last (last xs))"
    by auto
  with c show ?thesis by (simp add: SLIST_add_def)
qed

lemma last_not_in_butlast: "distinct xs \<Longrightarrow> xs \<noteq> [] \<Longrightarrow> last xs \<notin> set (butlast xs)"
  by (metis append_butlast_last_id distinct_butlast not_distinct_conv_prefix)

lemma add_tail_again:
  assumes "chain (nodes s) (head s) xs" and "xs \<noteq> []"
  shows "SLIST_add s (Some (last xs)) = Some (Returned s)"
proof -
  from assms(1) have "distinct xs" by (rule chain_distinct)
  with assms(2) have "last xs \<notin> set (butlast xs)" by (simp add: last_not_in_butlast)
  from add_at_last [OF assms this]
  have "SLIST_add s (Some (last xs)) =
        Some (Returned (set_next (last xs) None (set_next (last xs) (Some (last xs)) s)))" .
  moreover from assms have "next (nodes s (last xs)) = None" by (rule chain_last_next)
  ultimately show ?thesis using set_next_same [of "last xs" s] by (simp add: set_next_twice)
qed

text \<open>
  Inserting the last node again is not free of stores, although the memory is the
  same afterwards: the call stores the field twice.
\<close>

lemma tail_reinsert_stores:
  assumes "chain (nodes s) (head s) xs" and "xs \<noteq> []"
  shows "SLIST_add_stores s (Some (last xs)) =
         Some (Stored [Store_next (last xs) (Some (last xs)), Store_next (last xs) None])"
proof -
  from assms(1) have "distinct xs" by (rule chain_distinct)
  with assms(2) have nb: "last xs \<notin> set (butlast xs)" by (simp add: last_not_in_butlast)
  from assms have h: "head s = Some (hd xs)" by (cases xs) auto
  with assms(1) have "chain (nodes s) (Some (hd xs)) xs" by simp
  from walk_chain [OF this, of "Some (last xs)"] nb
  have "walk (nodes s) (Some (last xs)) (hd xs) = Some (Last (last xs))" by auto
  with h show ?thesis by (simp add: SLIST_add_stores_def)
qed

lemma add_member:
  assumes "chain (nodes s) (head s) xs" and "n \<in> set xs"
  shows "SLIST_add s (Some n) = Some (Returned s)"
proof (cases "n \<in> set (butlast xs)")
  case True
  with assms(1) show ?thesis by (rule add_found)
next
  case False
  from assms(2) have ne: "xs \<noteq> []" by auto
  with assms(2) False have "n = last xs"
    by (metis append_butlast_last_id in_set_conv_decomp_last rotate1.simps(2) set_ConsD set_rotate1)
  with add_tail_again [OF assms(1) ne] show ?thesis by simp
qed

lemma add_fresh_chain:
  assumes "chain (nodes s) (head s) xs" and "n \<notin> set xs"
  shows "\<exists>s'. SLIST_add s (Some n) = Some (Returned s') \<and> chain (nodes s') (head s') (xs @ [n])"
proof (cases "xs = []")
  case True
  with assms(1) have "head s = None" by simp
  from add_empty [OF this, of n] True show ?thesis by simp
next
  case False
  from assms(2) have "n \<notin> set (butlast xs)" by (auto dest: in_set_butlastD)
  from add_at_last [OF assms(1) False this]
  have r: "SLIST_add s (Some n) = Some (Returned (set_next n None (set_next (last xs) (Some n) s)))" .
  from assms(2) False have ne: "last xs \<noteq> n" by (metis last_in_set)
  have "chain ((nodes s)(last xs := (nodes s (last xs))\<lparr>next := Some n\<rparr>,
                        n := (nodes s n)\<lparr>next := None\<rparr>)) (head s) (xs @ [n])"
    by (rule chain_link [OF assms(1) False assms(2)]) simp
  with ne have "chain (nodes (set_next n None (set_next (last xs) (Some n) s)))
     (head (set_next n None (set_next (last xs) (Some n) s))) (xs @ [n])"
    by simp
  with r show ?thesis by blast
qed

section \<open>Facts about the concrete memories\<close>

lemma demo_chain: "chain demo_nodes (Some 1) [1, 2, 3, 4, 5]"
  by (simp add: demo_nodes_def)

lemma demo_traversal: "traversal demo_list = Some [1, 2, 3, 4, 5]"
  using demo_chain by (simp add: traversal_iff_chain demo_list_def)

lemma stale_one_step:
  "SLIST_add stale_fresh (Some 1) =
   Some (Returned \<lparr>head = Some 1, nodes = stale_nodes(1 := \<lparr>data = 7, next = None\<rparr>)\<rparr>)"
  by (simp add: SLIST_add_def stale_fresh_def SLIST_CREATE_LIST_def set_next_def set_head_def
      stale_nodes_def)

lemma stale_two_step:
  "SLIST_add \<lparr>head = Some 1, nodes = stale_nodes(1 := \<lparr>data = 7, next = None\<rparr>)\<rparr> (Some 2) =
   Some (Returned stale_two)"
proof -
  have "walk (stale_nodes(1 := \<lparr>data = 7::nat, next = None\<rparr>)) (Some 2) 1 = Some (Last 1)"
    by (simp add: walk.simps)
  then show ?thesis
    by (simp add: SLIST_add_def set_next_def stale_two_def stale_nodes_def fun_upd_twist)
qed

lemma stale_two_again: "SLIST_add stale_two (Some 2) = Some (Returned stale_two)"
proof -
  have c: "chain (nodes stale_two) (head stale_two) [1, 2]" by (simp add: stale_two_def)
  from add_member [OF c, of 2] show ?thesis by simp
qed

text \<open>
  \<open>stale_two\<close> is what the calls for the nodes 1, 2 and 2 again leave of the fresh
  list over the stale storage.
\<close>

lemma stale_two_reachable: "reachable {1, 2} stale_two"
proof -
  have "reachable {} stale_fresh" unfolding stale_fresh_def by (rule reachable.fresh)
  from reachable.added [OF this stale_one_step]
  have "reachable {1} \<lparr>head = Some 1, nodes = stale_nodes(1 := \<lparr>data = 7, next = None\<rparr>)\<rparr>" by simp
  from reachable.added [OF this stale_two_step] have "reachable {2, 1} stale_two" by simp
  from reachable.added [OF this stale_two_again] have "reachable {2, 1} stale_two" by simp
  then show ?thesis by (simp add: insert_commute)
qed

lemma stale_two_traversal: "traversal stale_two = Some [1, 2]"
  by (simp add: traversal_iff_chain stale_two_def)

section \<open>Empty lists\<close>

text \<open>
  Claim C7. For a freshly created list the loop body never runs: whatever the body
  is, the loop returns the state it was started in; the traversal yields the empty
  sequence and the number of iterations is zero.
\<close>

theorem fresh_list_traversal_empty:
  "SLIST_FOR_EACH_NODE_PTR body SLIST_CREATE_LIST st = Some st \<and>
   traversal \<lparr>head = SLIST_CREATE_LIST, nodes = h\<rparr> = Some [] \<and>
   iterations \<lparr>head = SLIST_CREATE_LIST, nodes = h\<rparr> = Some 0"
  by (simp add: SLIST_CREATE_LIST_def traversal_def iterations_def SLIST_FOR_EACH_NODE_PTR.simps)

theorem fresh_list_traversal_empty_witness:
  "SLIST_FOR_EACH_NODE_PTR tick SLIST_CREATE_LIST (0, stale_nodes) = Some (0, stale_nodes) \<and>
   traversal stale_fresh = Some [] \<and> iterations stale_fresh = Some 0"
  using fresh_list_traversal_empty [of tick "(0, stale_nodes)" stale_nodes]
  by (simp add: stale_fresh_def)

text \<open>
  Claim C8. Inserting a node into an empty list returns, makes the node the head,
  sets its \<open>next\<close> field to \<^verbatim>\<open>NULL\<close>, and the node is the only one a
  traversal yields.
\<close>

theorem add_to_empty_list:
  assumes "head s = None"
  shows "\<exists>s'. SLIST_add s (Some n) = Some (Returned s') \<and>
              head s' = Some n \<and> next (nodes s' n) = None \<and> traversal s' = Some [n]"
proof -
  let ?s' = "set_next n None (set_next n None (set_head (Some n) s))"
  from assms have "SLIST_add s (Some n) = Some (Returned ?s')" by (rule add_empty)
  moreover have "head ?s' = Some n" and nx: "next (nodes ?s' n) = None" by simp_all
  moreover have "traversal ?s' = Some [n]"
    unfolding traversal_iff_chain using nx by simp
  ultimately show ?thesis by blast
qed

theorem add_to_empty_list_witness:
  "head stale_fresh = None \<and>
   (\<exists>s'. SLIST_add stale_fresh (Some 3) = Some (Returned s') \<and>
         head s' = Some 3 \<and> next (nodes s' 3) = None \<and> traversal s' = Some [3])"
proof -
  have h: "head stale_fresh = None" by (simp add: stale_fresh_def SLIST_CREATE_LIST_def)
  from add_to_empty_list [OF h, of 3] h show ?thesis by simp
qed

section \<open>First in, first out\<close>

lemma add_seq_chain:
  assumes "chain (nodes s) (head s) xs" and "distinct ns" and "set ns \<inter> set xs = {}"
  shows "\<exists>s'. SLIST_add_seq s ns = Some (Returned s') \<and> chain (nodes s') (head s') (xs @ ns)"
  using assms
proof (induction ns arbitrary: s xs)
  case Nil
  then show ?case by simp
next
  case (Cons n ns)
  from Cons.prems have "n \<notin> set xs" by auto
  from add_fresh_chain [OF Cons.prems(1) this]
  obtain s1 where s1: "SLIST_add s (Some n) = Some (Returned s1)"
    and c1: "chain (nodes s1) (head s1) (xs @ [n])" by blast
  from Cons.prems have "distinct ns" and "set ns \<inter> set (xs @ [n]) = {}" by auto
  from Cons.IH [OF c1 this]
  obtain s' where "SLIST_add_seq s1 ns = Some (Returned s')"
    and "chain (nodes s') (head s') ((xs @ [n]) @ ns)" by blast
  with s1 show ?case by simp
qed

text \<open>
  Claim C2. Inserting nodes with pairwise distinct addresses \<open>ns\<close>, in this order,
  into a freshly created list, whatever the storage holds beforehand: every call
  returns, a traversal afterwards yields exactly \<open>ns\<close> in this order, and the loop
  body runs \<open>length ns\<close> times.
\<close>

theorem distinct_insertions_fifo:
  assumes "distinct ns"
  shows "\<exists>s'. SLIST_add_seq \<lparr>head = SLIST_CREATE_LIST, nodes = h\<rparr> ns = Some (Returned s') \<and>
              traversal s' = Some ns \<and> iterations s' = Some (length ns)"
proof -
  have "chain (nodes \<lparr>head = SLIST_CREATE_LIST, nodes = h\<rparr>)
          (head \<lparr>head = SLIST_CREATE_LIST, nodes = h\<rparr>) []"
    by (simp add: SLIST_CREATE_LIST_def)
  from add_seq_chain [OF this assms]
  obtain s' where "SLIST_add_seq \<lparr>head = SLIST_CREATE_LIST, nodes = h\<rparr> ns = Some (Returned s')"
    and "chain (nodes s') (head s') ns" by auto
  then show ?thesis by (auto simp: traversal_iff_chain iterations_chain)
qed

theorem distinct_insertions_fifo_witness:
  "distinct [1, 2, 3, 4, 5 :: addr] \<and>
   (\<exists>s'. SLIST_add_seq stale_fresh [1, 2, 3, 4, 5] = Some (Returned s') \<and>
         traversal s' = Some [1, 2, 3, 4, 5] \<and> iterations s' = Some 5)"
proof -
  have d: "distinct [1, 2, 3, 4, 5 :: addr]" by simp
  have l: "length [1, 2, 3, 4, 5 :: addr] = 5" by simp
  from distinct_insertions_fifo [OF d, of stale_nodes] d show ?thesis
    unfolding stale_fresh_def l by blast
qed

section \<open>Inserting a node that is already a member\<close>

text \<open>
  Claim C3. In a list whose traversal yields \<open>xs\<close>, inserting again a node that
  stands strictly before the last one returns and changes neither the sequence a
  traversal yields nor the number of iterations.
\<close>

theorem reinsert_before_tail_idempotent:
  assumes "traversal s = Some xs" and "n \<in> set (butlast xs)"
  shows "\<exists>s'. SLIST_add s (Some n) = Some (Returned s') \<and>
              traversal s' = Some xs \<and> iterations s' = iterations s"
proof -
  from assms(1) have "chain (nodes s) (head s) xs" by (simp add: traversal_iff_chain)
  from add_found [OF this assms(2)] assms(1) show ?thesis by simp
qed

theorem reinsert_before_tail_idempotent_witness:
  "traversal demo_list = Some [1, 2, 3, 4, 5] \<and> 3 \<in> set (butlast [1, 2, 3, 4, 5 :: addr]) \<and>
   (\<exists>s'. SLIST_add demo_list (Some 3) = Some (Returned s') \<and>
         traversal s' = Some [1, 2, 3, 4, 5] \<and> iterations s' = iterations demo_list)"
proof -
  have m: "3 \<in> set (butlast [1, 2, 3, 4, 5 :: addr])" by simp
  from reinsert_before_tail_idempotent [OF demo_traversal m] demo_traversal m
  show ?thesis by simp
qed

text \<open>
  Claim C9. In a list whose traversal yields \<open>xs\<close>, take a node that stands
  strictly before the last one. The loop of \<^verbatim>\<open>SLIST_add\<close> finds it and takes
  the early return; the call performs no store at all, neither to the handle nor to
  the \<open>next\<close> field of a member or of the argument node; and it returns the
  memory it was given.
\<close>

theorem duplicate_before_tail_no_store:
  assumes "traversal s = Some xs" and "n \<in> set (butlast xs)"
  shows "walk (nodes s) (Some n) (hd xs) = Some Found \<and>
         SLIST_add_stores s (Some n) = Some (Stored []) \<and>
         SLIST_add s (Some n) = Some (Returned s)"
proof -
  from assms(1) have c: "chain (nodes s) (head s) xs" by (simp add: traversal_iff_chain)
  from walk_finds_inner [OF c assms(2)]
  have h: "head s = Some (hd xs)" and w: "walk (nodes s) (Some n) (hd xs) = Some Found"
    by simp_all
  from found_no_stores [OF h w] have t: "SLIST_add_stores s (Some n) = Some (Stored [])" .
  then have "SLIST_add s (Some n) = Some (Returned s)" by (simp add: add_is_its_stores)
  with w t show ?thesis by simp
qed

theorem duplicate_before_tail_no_store_witness:
  "traversal demo_list = Some [1, 2, 3, 4, 5] \<and> 3 \<in> set (butlast [1, 2, 3, 4, 5 :: addr]) \<and>
   walk (nodes demo_list) (Some 3) (hd [1, 2, 3, 4, 5]) = Some Found \<and>
   SLIST_add_stores demo_list (Some 3) = Some (Stored []) \<and>
   SLIST_add demo_list (Some 3) = Some (Returned demo_list)"
proof -
  have m: "3 \<in> set (butlast [1, 2, 3, 4, 5 :: addr])" by simp
  from duplicate_before_tail_no_store [OF demo_traversal m] demo_traversal m
  show ?thesis by simp
qed

text \<open>
  For comparison, the second insertion of \<^verbatim>\<open>a5\<close> in the demonstration program
  returns the same memory too, but after two stores.
\<close>

lemma demo_tail_stores:
  "SLIST_add_stores demo_list (Some 5) = Some (Stored [Store_next 5 (Some 5), Store_next 5 None])"
proof -
  have "walk demo_nodes (Some 5) 1 = Some (Last 5)"
    by (simp add: walk.simps demo_nodes_def)
  then show ?thesis by (simp add: SLIST_add_stores_def demo_list_def)
qed

text \<open>
  Claim C1, as amended. When the node passed to \<^verbatim>\<open>SLIST_add\<close> is the last node
  of the list, the loop reaches it as the last node without taking the early
  return, and \<^verbatim>\<open>curr->next = node\<close> links the node to itself; the statement
  \<^verbatim>\<open>node->next = NULL\<close> that follows clears that link again. The call returns
  with the memory exactly as it was, and a traversal afterwards ends and yields the
  same sequence.
\<close>

theorem reinsert_tail_restores_list:
  assumes "traversal s = Some xs" and "xs \<noteq> []"
  shows "walk (nodes s) (Some (last xs)) (hd xs) = Some (Last (last xs)) \<and>
         next (nodes (set_next (last xs) (Some (last xs)) s) (last xs)) = Some (last xs) \<and>
         SLIST_add s (Some (last xs)) =
           Some (Returned (set_next (last xs) None (set_next (last xs) (Some (last xs)) s))) \<and>
         set_next (last xs) None (set_next (last xs) (Some (last xs)) s) = s \<and>
         traversal (set_next (last xs) None (set_next (last xs) (Some (last xs)) s)) = Some xs"
proof -
  let ?t = "last xs"
  from assms(1) have c: "chain (nodes s) (head s) xs" by (simp add: traversal_iff_chain)
  then have d: "distinct xs" by (rule chain_distinct)
  with assms(2) have nb: "?t \<notin> set (butlast xs)" by (simp add: last_not_in_butlast)
  from c assms(2) have hd: "head s = Some (hd xs)" by (cases xs) auto
  with c have "chain (nodes s) (Some (hd xs)) xs" by simp
  from walk_chain [OF this, of "Some ?t"] nb
  have w: "walk (nodes s) (Some ?t) (hd xs) = Some (Last ?t)" by auto
  have l: "next (nodes (set_next ?t (Some ?t) s) ?t) = Some ?t" by simp
  from add_at_last [OF c assms(2) nb]
  have a: "SLIST_add s (Some ?t) = Some (Returned (set_next ?t None (set_next ?t (Some ?t) s)))" .
  from c assms(2) have "next (nodes s ?t) = None" by (rule chain_last_next)
  with set_next_same [of ?t s] have e: "set_next ?t None (set_next ?t (Some ?t) s) = s"
    by (simp add: set_next_twice)
  from w l a e assms(1) show ?thesis by simp
qed

theorem reinsert_tail_restores_list_witness:
  "traversal demo_list = Some [1, 2, 3, 4, 5] \<and> [1, 2, 3, 4, 5 :: addr] \<noteq> [] \<and>
   walk (nodes demo_list) (Some 5) 1 = Some (Last 5) \<and>
   next (nodes (set_next 5 (Some 5) demo_list) 5) = Some 5 \<and>
   SLIST_add demo_list (Some 5) = Some (Returned (set_next 5 None (set_next 5 (Some 5) demo_list))) \<and>
   set_next 5 None (set_next 5 (Some 5) demo_list) = demo_list \<and>
   traversal (set_next 5 None (set_next 5 (Some 5) demo_list)) = Some [1, 2, 3, 4, 5]"
proof -
  have n: "[1, 2, 3, 4, 5 :: addr] \<noteq> []" by simp
  from reinsert_tail_restores_list [OF demo_traversal n] demo_traversal show ?thesis by simp
qed

text \<open>
  The demonstration program inserts \<^verbatim>\<open>a5\<close> a second time while it is the last
  node. The call returns after the two stores \<^verbatim>\<open>a5.next = &a5\<close> and
  \<^verbatim>\<open>a5.next = NULL\<close>; afterwards the node does not point to itself and the
  traversal ends with the five nodes.
\<close>

theorem reinsert_tail_counterexample:
  "traversal demo_list = Some [1, 2, 3, 4, 5] \<and>
   SLIST_add demo_list (Some 5) = Some (Returned (set_next 5 None (set_next 5 (Some 5) demo_list))) \<and>
   next (nodes (set_next 5 None (set_next 5 (Some 5) demo_list)) 5) \<noteq> Some 5 \<and>
   traversal (set_next 5 None (set_next 5 (Some 5) demo_list)) = Some [1, 2, 3, 4, 5]"
proof -
  have "walk demo_nodes (Some 5) 1 = Some (Last 5)"
    by (simp add: walk.simps demo_nodes_def)
  then have "SLIST_add demo_list (Some 5) =
             Some (Returned (set_next 5 None (set_next 5 (Some 5) demo_list)))"
    by (simp add: SLIST_add_def demo_list_def)
  moreover have "traversal (set_next 5 None (set_next 5 (Some 5) demo_list)) = Some [1, 2, 3, 4, 5]"
    by (simp add: traversal_iff_chain demo_list_def demo_nodes_def)
  ultimately show ?thesis using demo_traversal by simp
qed

section \<open>The last store of an insertion\<close>

text \<open>
  The result of inserting a node that is not a member does not depend on what its
  \<open>next\<close> field holds before the call: the field needs no initialisation.
\<close>

lemma prior_next_irrelevant:
  assumes "chain (nodes s) (head s) xs" and "n \<notin> set xs"
  shows "SLIST_add (set_next n v s) (Some n) = SLIST_add s (Some n)"
proof -
  from assms have c: "chain (nodes (set_next n v s)) (head (set_next n v s)) xs"
    by (simp add: chain_store_elsewhere)
  show ?thesis
  proof (cases "xs = []")
    case True
    with assms(1) have h: "head s = None" by simp
    then have h': "head (set_next n v s) = None" by simp
    have "set_next n None (set_next n None (set_head (Some n) (set_next n v s))) =
          set_next n None (set_next n None (set_head (Some n) s))"
      by (simp add: set_next_def set_head_def)
    with add_empty [OF h, of n] add_empty [OF h', of n] show ?thesis by simp
  next
    case False
    from assms(2) have nb: "n \<notin> set (butlast xs)" by (auto dest: in_set_butlastD)
    from assms(2) False have ne: "last xs \<noteq> n" by (metis last_in_set)
    then have "set_next n None (set_next (last xs) (Some n) (set_next n v s)) =
          set_next n None (set_next (last xs) (Some n) s)"
      by (simp add: set_next_def fun_upd_twist)
    with add_at_last [OF assms(1) False nb] add_at_last [OF c False nb] show ?thesis by simp
  qed
qed



section \<open>Lists reachable from the empty list\<close>

text \<open>
  The invariant of the insertions: the nodes inserted so far are on a chain that
  starts at the handle and ends.
\<close>

lemma reachable_chain: "reachable M s \<Longrightarrow> \<exists>xs. chain (nodes s) (head s) xs \<and> set xs = M"
proof (induction rule: reachable.induct)
  case (fresh h)
  show ?case by (simp add: SLIST_CREATE_LIST_def)
next
  case (added M s n s')
  then obtain xs where c: "chain (nodes s) (head s) xs" and m: "set xs = M" by blast
  show ?case
  proof (cases "n \<in> set xs")
    case True
    from add_member [OF c True] added.hyps(2) have "s' = s" by simp
    with c m True show ?thesis by auto
  next
    case False
    from add_fresh_chain [OF c False] added.hyps(2)
    have "chain (nodes s') (head s') (xs @ [n])" by auto
    with m show ?thesis by (intro exI [of _ "xs @ [n]"]) simp
  qed
qed

text \<open>On a reachable list every insertion of a node returns.\<close>

lemma reachable_add_returns:
  assumes "reachable M s"
  shows "\<exists>s'. SLIST_ADD_NODE s n = Some (Returned s')"
proof -
  from reachable_chain [OF assms] obtain xs where c: "chain (nodes s) (head s) xs" by blast
  show ?thesis
  proof (cases "n \<in> set xs")
    case True
    from add_member [OF c True] show ?thesis by blast
  next
    case False
    from add_fresh_chain [OF c False] show ?thesis by blast
  qed
qed

text \<open>
  Claim C4. In every memory reachable from a freshly created list by insertions,
  with \<open>M\<close> the set of nodes inserted so far, the traversal ends (the list has no
  cycle), and the number of nodes it passes before it reaches \<^verbatim>\<open>NULL\<close> is the
  number of members.
\<close>

theorem reachable_acyclic:
  assumes "reachable M s"
  shows "\<exists>xs. traversal s = Some xs \<and> length xs = card M \<and> iterations s = Some (card M)"
proof -
  from reachable_chain [OF assms]
  obtain xs where c: "chain (nodes s) (head s) xs" and m: "set xs = M"
    by blast
  from c have "distinct xs" by (rule chain_distinct)
  with m have "length xs = card M" by (auto simp: distinct_card)
  with c show ?thesis by (auto simp: traversal_iff_chain iterations_chain)
qed

theorem reachable_acyclic_witness:
  "reachable {1, 2} stale_two \<and>
   (\<exists>xs. traversal stale_two = Some xs \<and> length xs = card {1, 2 :: addr} \<and>
         iterations stale_two = Some (card {1, 2 :: addr}))"
  using reachable_acyclic [OF stale_two_reachable] stale_two_reachable by simp

text \<open>
  Claim C5. In every memory reachable from a freshly created list by insertions,
  no address occurs twice in the sequence the traversal yields, and the addresses
  that occur are the nodes inserted so far. Nodes are told apart by address: two
  members may carry the same payload.
\<close>

theorem reachable_identity_unique:
  assumes "reachable M s"
  shows "\<exists>xs. traversal s = Some xs \<and> distinct xs \<and> set xs = M"
proof -
  from reachable_chain [OF assms]
  obtain xs where c: "chain (nodes s) (head s) xs" and m: "set xs = M"
    by blast
  from c have "distinct xs" by (rule chain_distinct)
  with c m show ?thesis by (auto simp: traversal_iff_chain)
qed

theorem reachable_identity_unique_witness:
  "reachable {1, 2} stale_two \<and> data (nodes stale_two 1) = data (nodes stale_two 2) \<and>
   (\<exists>xs. traversal stale_two = Some xs \<and> distinct xs \<and> set xs = {1, 2})"
proof -
  have "data (nodes stale_two 1) = data (nodes stale_two 2)" by (simp add: stale_two_def)
  with reachable_identity_unique [OF stale_two_reachable] stale_two_reachable show ?thesis by simp
qed

section \<open>What an insertion leaves untouched\<close>

lemma filter_only_last:
  assumes "distinct xs" and "xs \<noteq> []"
  shows "filter (\<lambda>a. a = last xs) xs = [last xs]"
proof -
  from assms(2) have split: "xs = butlast xs @ [last xs]" by simp
  from assms have "last xs \<notin> set (butlast xs)" by (rule last_not_in_butlast)
  then have "filter (\<lambda>a. a = last xs) (butlast xs) = []" by (auto simp: filter_empty_conv)
  then have "filter (\<lambda>a. a = last xs) (butlast xs @ [last xs]) = [last xs]" by simp
  with split show ?thesis by simp
qed

text \<open>
  Claim C6, as amended. Take an insertion that returns and changes the sequence the
  traversal yields, \<open>xs\<close> being the members before the call. If the list was not
  empty, the members whose \<open>next\<close> field changed are exactly one, the previous
  last node, and the handle is unchanged. If the list was empty, there is no member
  whose \<open>next\<close> field could change, and the handle changes from \<^verbatim>\<open>NULL\<close> to the
  inserted node. In both cases every payload is unchanged.
\<close>

theorem structural_insert_frame:
  assumes "traversal s = Some xs" and "SLIST_add s (Some n) = Some (Returned s')"
    and "traversal s' \<noteq> Some xs"
  shows "(xs \<noteq> [] \<longrightarrow> filter (next_changed s s') xs = [last xs] \<and> head s' = head s) \<and>
         (xs = [] \<longrightarrow> filter (next_changed s s') xs = [] \<and> head s = None \<and> head s' = Some n) \<and>
         (\<forall>a. data (nodes s' a) = data (nodes s a))"
proof -
  from assms(1) have c: "chain (nodes s) (head s) xs" by (simp add: traversal_iff_chain)
  have fresh: "n \<notin> set xs"
  proof
    assume "n \<in> set xs"
    from add_member [OF c this] assms(2) have "s' = s" by simp
    with assms(1,3) show False by simp
  qed
  have nonempty: "filter (next_changed s s') xs = [last xs] \<and> head s' = head s" if ne: "xs \<noteq> []"
  proof -
    from fresh have "n \<notin> set (butlast xs)" by (auto dest: in_set_butlastD)
    from add_at_last [OF c ne this] assms(2)
    have s': "s' = set_next n None (set_next (last xs) (Some n) s)" by simp
    from c ne have tl: "next (nodes s (last xs)) = None" by (rule chain_last_next)
    have "next_changed s s' a = (a = last xs)" if "a \<in> set xs" for a
      using that fresh tl by (auto simp: next_changed_def s')
    then have "filter (next_changed s s') xs = filter (\<lambda>a. a = last xs) xs"
      by (intro filter_cong) simp_all
    also from c ne have "\<dots> = [last xs]" by (simp add: filter_only_last chain_distinct)
    finally show ?thesis by (simp add: s')
  qed
  have empty: "filter (next_changed s s') xs = [] \<and> head s = None \<and> head s' = Some n"
    if e: "xs = []"
  proof -
    from c e have h: "head s = None" by simp
    from add_empty [OF h, of n] assms(2) e h show ?thesis by auto
  qed
  from assms(2) have "\<forall>a. data (nodes s' a) = data (nodes s a)" by (simp add: add_data_unchanged)
  with nonempty empty show ?thesis by blast
qed

theorem structural_insert_frame_witness:
  "traversal stale_two = Some [1, 2] \<and>
   SLIST_add stale_two (Some 3) = Some (Returned (set_next 3 None (set_next 2 (Some 3) stale_two))) \<and>
   traversal (set_next 3 None (set_next 2 (Some 3) stale_two)) \<noteq> Some [1, 2] \<and>
   filter (next_changed stale_two (set_next 3 None (set_next 2 (Some 3) stale_two))) [1, 2] = [2] \<and>
   head (set_next 3 None (set_next 2 (Some 3) stale_two)) = head stale_two \<and>
   (\<forall>a. data (nodes (set_next 3 None (set_next 2 (Some 3) stale_two)) a) = data (nodes stale_two a))"
proof -
  have "walk (nodes stale_two) (Some 3) 1 = Some (Last 2)"
    by (simp add: walk.simps stale_two_def)
  then have a: "SLIST_add stale_two (Some 3) =
      Some (Returned (set_next 3 None (set_next 2 (Some 3) stale_two)))"
    by (simp add: SLIST_add_def stale_two_def)
  have "traversal (set_next 3 None (set_next 2 (Some 3) stale_two)) = Some [1, 2, 3]"
    by (simp add: traversal_iff_chain stale_two_def)
  then have t: "traversal (set_next 3 None (set_next 2 (Some 3) stale_two)) \<noteq> Some [1, 2]"
    by simp
  from structural_insert_frame [OF stale_two_traversal a t] stale_two_traversal a t
  show ?thesis by simp
qed

text \<open>
  An insertion into the empty list changes the list (the traversal yields the new
  node afterwards), but the list had no member before the call: the number of
  members whose \<open>next\<close> field changed is zero, not one.
\<close>

theorem structural_insert_frame_counterexample:
  "traversal stale_fresh = Some [] \<and>
   SLIST_add stale_fresh (Some 1) =
     Some (Returned (set_next 1 None (set_next 1 None (set_head (Some 1) stale_fresh)))) \<and>
   traversal (set_next 1 None (set_next 1 None (set_head (Some 1) stale_fresh))) = Some [1] \<and>
   length (filter (next_changed stale_fresh
      (set_next 1 None (set_next 1 None (set_head (Some 1) stale_fresh)))) []) \<noteq> 1"
  by (simp add: traversal_iff_chain SLIST_add_def stale_fresh_def SLIST_CREATE_LIST_def)

end
